theory Spec2Isabelle
  imports Main "HOL-Library.Char_ord" "HOL-Library.Monad_Syntax" "HOL-Library.Sublist"
begin

section \<open>Bytes, slices and the shared case folding\<close>

text \<open>
  Go's \<^verbatim>\<open>byte\<close> is an unsigned 8-bit value and a Go \<^verbatim>\<open>string\<close> or \<^verbatim>\<open>[]byte\<close> is a
  sequence of bytes. HOL's \<^typ>\<open>char\<close> has exactly the 256 values \<open>0..255\<close>, so a byte is a
  \<^typ>\<open>char\<close> and both Go sequence types are \<^typ>\<open>string\<close>. Go's \<^verbatim>\<open>int\<close> is modelled as
  \<^typ>\<open>int\<close>: every value the two packages compute is bounded by a slice length plus a
  pattern length, far from the 64-bit range.

  An index expression \<^verbatim>\<open>xs[i]\<close> on a slice panics when \<^verbatim>\<open>i\<close> is out of range. The model
  makes that a result: \<open>None\<close> stands for a run that does not return normally.
\<close>

type_synonym byte = char

definition at :: "'a list \<Rightarrow> int \<Rightarrow> 'a option" where
  "at xs i = (if 0 \<le> i \<and> i < int (length xs) then Some (xs ! nat i) else None)"

definition put :: "'a list \<Rightarrow> int \<Rightarrow> 'a \<Rightarrow> 'a list option" where
  "put xs i v = (if 0 \<le> i \<and> i < int (length xs) then Some (xs[nat i := v]) else None)"

text \<open>Byte addition \<^verbatim>\<open>c + k\<close> wraps modulo 256, as \<^const>\<open>char_of\<close> does.\<close>

definition byte_add :: "byte \<Rightarrow> nat \<Rightarrow> byte" where
  "byte_add c k = char_of (of_char c + k)"

text \<open>
  The folding step \<^verbatim>\<open>if c >= 'A' && c <= 'Z' { c + ('a' - 'A') }\<close> occurs four times in the
  source (in both constructors, in \<^verbatim>\<open>normChar\<close> and in the automaton's scan loop).
\<close>

definition toLower :: "byte \<Rightarrow> byte" where
  "toLower c = (if CHR ''A'' \<le> c \<and> c \<le> CHR ''Z''
                then byte_add c (of_char CHR ''a'' - of_char CHR ''A'') else c)"

text \<open>The case policy: which byte a text or pattern byte is compared as.\<close>

definition foldCase :: "bool \<Rightarrow> byte \<Rightarrow> byte" where
  "foldCase ic c = (if ic then toLower c else c)"

text \<open>The 256 byte values in increasing order: the range of \<^verbatim>\<open>for c := 0; c < 256; c++\<close>.\<close>

definition all_bytes :: "byte list" where
  "all_bytes = map char_of [0..<256::nat]"

section \<open>Single-pattern matcher (package boyermoore)\<close>

record BoyerMoore =
  pat :: "byte list"
  ignoreCase :: bool
  bcShift :: "byte \<Rightarrow> int"
  gsShift :: "int list"

text \<open>
  \<^verbatim>\<open>bcShift\<close> is a \<^verbatim>\<open>[256]int\<close> that is only ever indexed by a byte, so an access cannot be
  out of range: the array is a total function on bytes.
\<close>

definition normChar :: "BoyerMoore \<Rightarrow> byte \<Rightarrow> byte" where
  "normChar bm c = (if ignoreCase bm \<and> CHR ''A'' \<le> c \<and> c \<le> CHR ''Z''
                    then byte_add c (of_char CHR ''a'' - of_char CHR ''A'') else c)"

definition buildBadCharShift :: "BoyerMoore \<Rightarrow> BoyerMoore" where
  "buildBadCharShift bm =
     bm\<lparr>bcShift := fold (\<lambda>i t. t(pat bm ! i := int i)) [0..<length (pat bm)] (\<lambda>_. - 1)\<rparr>"

text \<open>
  The inner loop of the suffix computation,
  \<^verbatim>\<open>for g >= 0 && bm.pat[g] == bm.pat[g+m-1-f] { g-- }\<close>; it returns the final \<^verbatim>\<open>g\<close>.
\<close>

function suffixScan :: "byte list \<Rightarrow> int \<Rightarrow> int \<Rightarrow> int option" where
  "suffixScan p f g =
     (if g \<ge> 0 then
        do { a \<leftarrow> at p g;
             b \<leftarrow> at p (g + int (length p) - 1 - f);
             if a = b then suffixScan p f (g - 1) else Some g }
      else Some g)"
  by pat_completeness auto
termination
  by (relation "measure (\<lambda>(p, f, g). nat (g + 1))") auto

text \<open>
  The loop \<^verbatim>\<open>for i := m - 2; i >= 0; i--\<close> that fills \<^verbatim>\<open>suffix\<close>. The condition
  \<^verbatim>\<open>i > g && suffix[i+m-1-f] < i-g\<close> reads the array only when \<^verbatim>\<open>i > g\<close>.
\<close>

function suffixLoop :: "byte list \<Rightarrow> int \<Rightarrow> int \<Rightarrow> int \<Rightarrow> int list \<Rightarrow> int list option" where
  "suffixLoop p i g f suff =
     (if i \<ge> 0 then
        do { reuse \<leftarrow> (if i > g
                       then do { v \<leftarrow> at suff (i + int (length p) - 1 - f); Some (v < i - g) }
                       else Some False);
             if reuse then
               do { v \<leftarrow> at suff (i + int (length p) - 1 - f);
                    suff' \<leftarrow> put suff i v;
                    suffixLoop p (i - 1) g f suff' }
             else
               do { g' \<leftarrow> suffixScan p i i;
                    suff' \<leftarrow> put suff i (i - g');
                    suffixLoop p (i - 1) g' i suff' } }
      else Some suff)"
  by pat_completeness auto
termination
  by (relation "measure (\<lambda>(p, i, g, f, suff). nat (i + 1))") auto

text \<open>
  \<^verbatim>\<open>for j < m-1-i { if bm.gsShift[j] == m { bm.gsShift[j] = m - 1 - i }; j++ }\<close>;
  it returns the final \<^verbatim>\<open>j\<close> and table.
\<close>

function gsFill :: "int \<Rightarrow> int \<Rightarrow> int \<Rightarrow> int list \<Rightarrow> (int \<times> int list) option" where
  "gsFill m i j gs =
     (if j < m - 1 - i then
        do { v \<leftarrow> at gs j;
             gs' \<leftarrow> (if v = m then put gs j (m - 1 - i) else Some gs);
             gsFill m i (j + 1) gs' }
      else Some (j, gs))"
  by pat_completeness auto
termination
  by (relation "measure (\<lambda>(m, i, j, gs). nat (m - 1 - i - j))") auto

text \<open>\<^verbatim>\<open>for i := m - 1; i >= 0; i--\<close> with the prefix test \<^verbatim>\<open>suffix[i] == i+1\<close>.\<close>

function gsPrefixLoop :: "int \<Rightarrow> int list \<Rightarrow> int \<Rightarrow> int \<Rightarrow> int list \<Rightarrow> int list option" where
  "gsPrefixLoop m suff i j gs =
     (if i \<ge> 0 then
        do { v \<leftarrow> at suff i;
             (j', gs') \<leftarrow> (if v = i + 1 then gsFill m i j gs else Some (j, gs));
             gsPrefixLoop m suff (i - 1) j' gs' }
      else Some gs)"
  by pat_completeness auto
termination
  by (relation "measure (\<lambda>(m, suff, i, j, gs). nat (i + 1))") auto

text \<open>\<^verbatim>\<open>for i := 0; i < m-1; i++ { bm.gsShift[m-1-suffix[i]] = m - 1 - i }\<close>.\<close>

function gsSuffixLoop :: "int \<Rightarrow> int list \<Rightarrow> int \<Rightarrow> int list \<Rightarrow> int list option" where
  "gsSuffixLoop m suff i gs =
     (if i < m - 1 then
        do { v \<leftarrow> at suff i;
             gs' \<leftarrow> put gs (m - 1 - v) (m - 1 - i);
             gsSuffixLoop m suff (i + 1) gs' }
      else Some gs)"
  by pat_completeness auto
termination
  by (relation "measure (\<lambda>(m, suff, i, gs). nat (m - 1 - i))") auto

definition buildGoodSuffixShift :: "BoyerMoore \<Rightarrow> BoyerMoore option" where
  "buildGoodSuffixShift bm =
     (let m = int (length (pat bm)) in
      do { suff0 \<leftarrow> put (replicate (length (pat bm)) 0) (m - 1) m;
           suff \<leftarrow> suffixLoop (pat bm) (m - 2) (m - 1) (m - 1) suff0;
           gs1 \<leftarrow> gsPrefixLoop m suff (m - 1) 0 (replicate (length (pat bm)) m);
           gs2 \<leftarrow> gsSuffixLoop m suff 0 gs1;
           Some (bm\<lparr>gsShift := gs2\<rparr>) })"

definition bm_New :: "string \<Rightarrow> bool \<Rightarrow> BoyerMoore option" where
  "bm_New pattern ic =
     (if length pattern = 0 then
        Some \<lparr>pat = [], ignoreCase = ic, bcShift = (\<lambda>_. 0), gsShift = []\<rparr>
      else
        let p = (if ic
                 then map (\<lambda>c. if CHR ''A'' \<le> c \<and> c \<le> CHR ''Z''
                                then byte_add c (of_char CHR ''a'' - of_char CHR ''A'') else c)
                          pattern
                 else pattern);
            bm = \<lparr>pat = p, ignoreCase = ic, bcShift = (\<lambda>_. 0),
                  gsShift = replicate (length p) 0\<rparr>
        in buildGoodSuffixShift (buildBadCharShift bm))"

text \<open>
  The comparison loop of \<^verbatim>\<open>_findAll\<close>,
  \<^verbatim>\<open>for j >= 0 && bm.pat[j] == bm.normChar(data[s+j]) { j-- }\<close>; it returns the final \<^verbatim>\<open>j\<close>.
\<close>

function compareBack :: "BoyerMoore \<Rightarrow> byte list \<Rightarrow> int \<Rightarrow> int \<Rightarrow> int option" where
  "compareBack bm data s j =
     (if j \<ge> 0 then
        do { a \<leftarrow> at (pat bm) j;
             b \<leftarrow> at data (s + j);
             if a = normChar bm b then compareBack bm data s (j - 1) else Some j }
      else Some j)"
  by pat_completeness auto
termination
  by (relation "measure (\<lambda>(bm, data, s, j). nat (j + 1))") auto

text \<open>
  One pass through the body of \<^verbatim>\<open>for s <= n-m\<close>: from the window start \<^verbatim>\<open>s\<close> and the results
  so far to the next window start and results.
\<close>

definition scanStep :: "BoyerMoore \<Rightarrow> byte list \<Rightarrow> int \<Rightarrow> int list \<Rightarrow> (int \<times> int list) option" where
  "scanStep bm data s results =
     (let m = int (length (pat bm)); n = int (length data) in
      do { j \<leftarrow> compareBack bm data s (m - 1);
           if j < 0 then
             (if s + m < n then
                do { c \<leftarrow> at data (s + m);
                     Some (s + (m - bcShift bm (normChar bm c)), results @ [s]) }
              else Some (s + 1, results @ [s]))
           else
             do { c \<leftarrow> at data (s + j);
                  let badCharShift = j - bcShift bm (normChar bm c);
                  goodSuffixShift \<leftarrow> at (gsShift bm) j;
                  let badCharShift = (if badCharShift < 1 then 1 else badCharShift);
                  if badCharShift > goodSuffixShift
                  then Some (s + badCharShift, results)
                  else Some (s + goodSuffixShift, results) } })"

text \<open>
  The loop \<^verbatim>\<open>for s <= n-m\<close> itself. Whether it ends depends on the tables, so it is a partial
  function: \<open>None\<close> is a run that panics or never leaves the loop.
\<close>

partial_function (option) scanLoop :: "BoyerMoore \<Rightarrow> byte list \<Rightarrow> int \<Rightarrow> int list \<Rightarrow> int list option" where
  "scanLoop bm data s results =
     (if s \<le> int (length data) - int (length (pat bm)) then
        do { (s', results') \<leftarrow> scanStep bm data s results;
             scanLoop bm data s' results' }
      else Some results)"

declare scanLoop.simps [code]

definition bm_findAll :: "BoyerMoore \<Rightarrow> byte list \<Rightarrow> int list option" where
  "bm_findAll bm data =
     (let m = length (pat bm); n = length data in
      if m = 0 \<or> n = 0 \<or> m > n then Some [] else scanLoop bm data 0 [])"

definition bm_FindAllBytes :: "BoyerMoore \<Rightarrow> byte list \<Rightarrow> int list option" where
  "bm_FindAllBytes bm data = bm_findAll bm data"

definition bm_FindAll :: "BoyerMoore \<Rightarrow> string \<Rightarrow> int list option" where
  "bm_FindAll bm txt = bm_findAll bm txt"

definition bm_FindFirst :: "BoyerMoore \<Rightarrow> string \<Rightarrow> int option" where
  "bm_FindFirst bm txt =
     do { res \<leftarrow> bm_FindAll bm txt;
          if length res > 0 then at res 0 else Some (- 1) }"

definition bm_FindFirstBytes :: "BoyerMoore \<Rightarrow> byte list \<Rightarrow> int option" where
  "bm_FindFirstBytes bm data =
     do { res \<leftarrow> bm_FindAllBytes bm data;
          if length res > 0 then at res 0 else Some (- 1) }"

definition bm_Contains :: "BoyerMoore \<Rightarrow> string \<Rightarrow> bool option" where
  "bm_Contains bm txt = do { r \<leftarrow> bm_FindFirst bm txt; Some (r \<noteq> - 1) }"

definition bm_ContainsBytes :: "BoyerMoore \<Rightarrow> byte list \<Rightarrow> bool option" where
  "bm_ContainsBytes bm data = do { r \<leftarrow> bm_FindFirstBytes bm data; Some (r \<noteq> - 1) }"

definition bm_Count :: "BoyerMoore \<Rightarrow> string \<Rightarrow> int option" where
  "bm_Count bm txt = do { res \<leftarrow> bm_FindAll bm txt; Some (int (length res)) }"

definition bm_CountBytes :: "BoyerMoore \<Rightarrow> byte list \<Rightarrow> int option" where
  "bm_CountBytes bm data = do { res \<leftarrow> bm_FindAllBytes bm data; Some (int (length res)) }"

section \<open>Multi-pattern automaton (package ahocorasick)\<close>

text \<open>
  Node numbers and pattern numbers are slice indices: they arise only as \<^verbatim>\<open>0\<close>, as
  \<^verbatim>\<open>len(ac.next) - 1\<close> after an \<^verbatim>\<open>append\<close>, as a loop index, or as a copy of one of these, so
  they are natural numbers. \<^verbatim>\<open>Start\<close> is computed by a subtraction and stays an \<^typ>\<open>int\<close>.
  Each row of \<^verbatim>\<open>next\<close> is a \<^verbatim>\<open>[256]int\<close> indexed by a byte (or by a loop counter below 256):
  a total function on bytes, as \<^const>\<open>bcShift\<close> is.
\<close>

definition sel :: "'a list \<Rightarrow> nat \<Rightarrow> 'a option" where
  "sel xs i = (if i < length xs then Some (xs ! i) else None)"

definition upd :: "'a list \<Rightarrow> nat \<Rightarrow> 'a \<Rightarrow> 'a list option" where
  "upd xs i v = (if i < length xs then Some (xs[i := v]) else None)"

text \<open>A \<^verbatim>\<open>for ... range\<close> loop whose body may panic: the fold stops at the first \<open>None\<close>.\<close>

fun foldO :: "('a \<Rightarrow> 's \<Rightarrow> 's option) \<Rightarrow> 'a list \<Rightarrow> 's \<Rightarrow> 's option" where
  "foldO f [] s = Some s"
| "foldO f (x # xs) s = do { s' \<leftarrow> f x s; foldO f xs s' }"

record ACMatch =
  PatternIndex :: nat
  Start :: int
  End :: int

record AhoCorasick =
  ac_keywords :: "byte list list"
  ac_ignoreCase :: bool
  ac_next :: "(byte \<Rightarrow> nat) list"
  ac_fail :: "nat list"
  ac_out :: "nat list list"

text \<open>
  The inner loop of \<^verbatim>\<open>buildTrie\<close>, \<^verbatim>\<open>for _, c := range k\<close>: it walks (and extends) the trie
  from \<^verbatim>\<open>node\<close> along the bytes of the keyword and returns the node reached.
\<close>

fun trieWalk :: "AhoCorasick \<Rightarrow> nat \<Rightarrow> byte list \<Rightarrow> (AhoCorasick \<times> nat) option" where
  "trieWalk ac node [] = Some (ac, node)"
| "trieWalk ac node (cc # k) =
     do { row \<leftarrow> sel (ac_next ac) node;
          ac' \<leftarrow> (if row cc = 0 then
                    do { let ac1 = ac\<lparr>ac_next := ac_next ac @ [\<lambda>_. 0],
                                       ac_fail := ac_fail ac @ [0],
                                       ac_out := ac_out ac @ [[]]\<rparr>;
                         row1 \<leftarrow> sel (ac_next ac1) node;
                         next' \<leftarrow> upd (ac_next ac1) node (row1(cc := length (ac_next ac1) - 1));
                         Some (ac1\<lparr>ac_next := next'\<rparr>) }
                  else Some ac);
          row' \<leftarrow> sel (ac_next ac') node;
          trieWalk ac' (row' cc) k }"

text \<open>The outer loop \<^verbatim>\<open>for idx, k := range ac.keywords\<close>.\<close>

fun trieLoop :: "AhoCorasick \<Rightarrow> nat \<Rightarrow> byte list list \<Rightarrow> AhoCorasick option" where
  "trieLoop ac idx [] = Some ac"
| "trieLoop ac idx (k # ks) =
     do { (ac', node) \<leftarrow> trieWalk ac 0 k;
          o_node \<leftarrow> sel (ac_out ac') node;
          out' \<leftarrow> upd (ac_out ac') node (o_node @ [idx]);
          trieLoop (ac'\<lparr>ac_out := out'\<rparr>) (idx + 1) ks }"

definition buildTrie :: "AhoCorasick \<Rightarrow> AhoCorasick option" where
  "buildTrie ac = trieLoop ac 0 (ac_keywords ac)"

text \<open>Step 1 of \<^verbatim>\<open>buildFailureLinks\<close>: the body of the loop over the root's 256 entries.\<close>

definition rootStep :: "byte \<Rightarrow> AhoCorasick \<times> nat list \<Rightarrow> (AhoCorasick \<times> nat list) option" where
  "rootStep c = (\<lambda>(ac, queue).
     do { row0 \<leftarrow> sel (ac_next ac) 0;
          let nx = row0 c;
          if nx \<noteq> 0 then
            do { fail' \<leftarrow> upd (ac_fail ac) nx 0;
                 Some (ac\<lparr>ac_fail := fail'\<rparr>, queue @ [nx]) }
          else
            do { next' \<leftarrow> upd (ac_next ac) 0 (row0(c := 0));
                 Some (ac\<lparr>ac_next := next'\<rparr>, queue) } })"

text \<open>Step 2: the body of the loop over the 256 entries of the dequeued node \<^verbatim>\<open>f\<close>.\<close>

definition bfsStep :: "nat \<Rightarrow> byte \<Rightarrow> AhoCorasick \<times> nat list \<Rightarrow> (AhoCorasick \<times> nat list) option" where
  "bfsStep f c = (\<lambda>(ac, queue).
     do { row_f \<leftarrow> sel (ac_next ac) f;
          let nx = row_f c;
          if nx \<noteq> 0 then
            do { let queue' = queue @ [nx];
                 failTo \<leftarrow> sel (ac_fail ac) f;
                 row_failTo \<leftarrow> sel (ac_next ac) failTo;
                 fail' \<leftarrow> upd (ac_fail ac) nx (row_failTo c);
                 out_nx \<leftarrow> sel (ac_out ac) nx;
                 fail_nx \<leftarrow> sel fail' nx;
                 out_fail \<leftarrow> sel (ac_out ac) fail_nx;
                 out' \<leftarrow> upd (ac_out ac) nx (out_nx @ out_fail);
                 Some (ac\<lparr>ac_fail := fail', ac_out := out'\<rparr>, queue') }
          else
            do { fail_f \<leftarrow> sel (ac_fail ac) f;
                 row_fail \<leftarrow> sel (ac_next ac) fail_f;
                 next' \<leftarrow> upd (ac_next ac) f (row_f(c := row_fail c));
                 Some (ac\<lparr>ac_next := next'\<rparr>, queue) } })"

text \<open>
  The loop \<^verbatim>\<open>for len(queue) > 0\<close>. It ends only if the queue runs empty, which depends on the
  tables, so it is a partial function.
\<close>

partial_function (option) bfsLoop :: "AhoCorasick \<Rightarrow> nat list \<Rightarrow> AhoCorasick option" where
  "bfsLoop ac queue =
     (case queue of
        [] \<Rightarrow> Some ac
      | f # rest \<Rightarrow>
          do { (ac', queue') \<leftarrow> foldO (bfsStep f) all_bytes (ac, rest);
               bfsLoop ac' queue' })"

declare bfsLoop.simps [code]

definition buildFailureLinks :: "AhoCorasick \<Rightarrow> AhoCorasick option" where
  "buildFailureLinks ac =
     do { (ac', queue) \<leftarrow> foldO rootStep all_bytes (ac, []);
          bfsLoop ac' queue }"

definition ac_New :: "string list \<Rightarrow> bool \<Rightarrow> AhoCorasick option" where
  "ac_New patterns ic =
     (let kw = map (\<lambda>p. if ic
                         then map (\<lambda>b. if CHR ''A'' \<le> b \<and> b \<le> CHR ''Z''
                                        then byte_add b (of_char CHR ''a'' - of_char CHR ''A'')
                                        else b) p
                         else p) patterns;
          ac = \<lparr>ac_keywords = kw, ac_ignoreCase = ic,
                ac_next = [\<lambda>_. 0], ac_fail = [0], ac_out = [[]]\<rparr>
      in do { ac' \<leftarrow> buildTrie ac; buildFailureLinks ac' })"

text \<open>The body of \<^verbatim>\<open>for _, patIdx := range ac.out[node]\<close> at text position \<^verbatim>\<open>i\<close>.\<close>

definition emit :: "AhoCorasick \<Rightarrow> nat \<Rightarrow> nat \<Rightarrow> ACMatch list \<Rightarrow> ACMatch list option" where
  "emit ac i patIdx matches =
     do { kw \<leftarrow> sel (ac_keywords ac) patIdx;
          let patLen = length kw;
          Some (matches @ [\<lparr>PatternIndex = patIdx,
                             Start = int i - int patLen + 1,
                             End = int i\<rparr>]) }"

text \<open>The loop \<^verbatim>\<open>for i, c := range data\<close> of \<^verbatim>\<open>_findAll\<close>, from position \<^verbatim>\<open>i\<close> on.\<close>

fun acScan :: "AhoCorasick \<Rightarrow> byte list \<Rightarrow> nat \<Rightarrow> nat \<Rightarrow> ACMatch list \<Rightarrow> ACMatch list option" where
  "acScan ac [] i node matches = Some matches"
| "acScan ac (c # data) i node matches =
     do { let cc = (if ac_ignoreCase ac \<and> CHR ''A'' \<le> c \<and> c \<le> CHR ''Z''
                    then byte_add c (of_char CHR ''a'' - of_char CHR ''A'') else c);
          row \<leftarrow> sel (ac_next ac) node;
          let node' = row cc;
          out_node \<leftarrow> sel (ac_out ac) node';
          matches' \<leftarrow> (if length out_node > 0
                        then foldO (emit ac i) out_node matches
                        else Some matches);
          acScan ac data (i + 1) node' matches' }"

definition ac_findAll :: "AhoCorasick \<Rightarrow> byte list \<Rightarrow> ACMatch list option" where
  "ac_findAll ac data = acScan ac data 0 0 []"

definition ac_FindAll :: "AhoCorasick \<Rightarrow> string \<Rightarrow> ACMatch list option" where
  "ac_FindAll ac text = ac_findAll ac text"

definition ac_FindAllBytes :: "AhoCorasick \<Rightarrow> byte list \<Rightarrow> ACMatch list option" where
  "ac_FindAllBytes ac data = ac_findAll ac data"

definition ac_Contains :: "AhoCorasick \<Rightarrow> string \<Rightarrow> bool option" where
  "ac_Contains ac text = do { ms \<leftarrow> ac_FindAll ac text; Some (length ms > 0) }"

definition ac_ContainsBytes :: "AhoCorasick \<Rightarrow> byte list \<Rightarrow> bool option" where
  "ac_ContainsBytes ac data = do { ms \<leftarrow> ac_FindAllBytes ac data; Some (length ms > 0) }"

definition ac_Count :: "AhoCorasick \<Rightarrow> string \<Rightarrow> int option" where
  "ac_Count ac text = do { ms \<leftarrow> ac_FindAll ac text; Some (int (length ms)) }"

definition ac_CountBytes :: "AhoCorasick \<Rightarrow> byte list \<Rightarrow> int option" where
  "ac_CountBytes ac data = do { ms \<leftarrow> ac_FindAllBytes ac data; Some (int (length ms)) }"

section \<open>Specification-level notions\<close>

subsection \<open>Occurrences of a single pattern\<close>

text \<open>
  \<open>matchesAt ic P T s\<close>: the slice \<open>T[s..s+len(P))\<close> lies inside \<open>T\<close> and equals \<open>P\<close> under
  the case policy \<open>ic\<close> (both sides folded when \<open>ic\<close> is set, plain byte equality otherwise).
\<close>

definition matchesAt :: "bool \<Rightarrow> string \<Rightarrow> string \<Rightarrow> int \<Rightarrow> bool" where
  "matchesAt ic P T s \<longleftrightarrow>
     0 \<le> s \<and> s + int (length P) \<le> int (length T) \<and>
     map (foldCase ic) (take (length P) (drop (nat s) T)) = map (foldCase ic) P"

text \<open>
  What the scan loop needs from the tables of a matcher: a good-suffix entry for every pattern
  position, each at least 1, and bad-character entries between \<open>-1\<close> and \<open>m - 1\<close> that are
  not left of any occurrence of the byte in the pattern.
\<close>

definition bm_wf :: "BoyerMoore \<Rightarrow> bool" where
  "bm_wf bm \<longleftrightarrow>
     pat bm \<noteq> [] \<and> length (gsShift bm) = length (pat bm) \<and>
     (\<forall>g \<in> set (gsShift bm). 1 \<le> g) \<and>
     (\<forall>b. - 1 \<le> bcShift bm b \<and> bcShift bm b < int (length (pat bm))) \<and>
     (\<forall>i < length (pat bm). int i \<le> bcShift bm (pat bm ! i))"

text \<open>A matcher whose pattern is the folded form of \<open>P\<close>.\<close>

definition bm_for :: "BoyerMoore \<Rightarrow> bool \<Rightarrow> string \<Rightarrow> bool" where
  "bm_for bm ic P \<longleftrightarrow> bm_wf bm \<and> ignoreCase bm = ic \<and> pat bm = map (foldCase ic) P"

text \<open>
  Loop invariants of \<^const>\<open>buildGoodSuffixShift\<close>: the entries of \<^verbatim>\<open>suffix\<close> right of \<open>i\<close>
  are already final and lie in \<open>0..k+1\<close>; the good-suffix table has its length and only
  entries from 1 upwards.
\<close>

definition suffix_ok :: "int list \<Rightarrow> nat \<Rightarrow> int \<Rightarrow> bool" where
  "suffix_ok suff m i \<longleftrightarrow>
     length suff = m \<and> (\<forall>k < m. i < int k \<longrightarrow> 0 \<le> suff ! k \<and> suff ! k \<le> int k + 1)"

definition gs_ok :: "int list \<Rightarrow> nat \<Rightarrow> bool" where
  "gs_ok gs m \<longleftrightarrow> length gs = m \<and> (\<forall>v \<in> set gs. 1 \<le> v)"

text \<open>The bad-character table after the first \<open>k\<close> passes of the loop of \<^const>\<open>buildBadCharShift\<close>.\<close>

definition bcTable :: "byte list \<Rightarrow> nat \<Rightarrow> byte \<Rightarrow> int" where
  "bcTable p k = fold (\<lambda>i t. t(p ! i := int i)) [0..<k] (\<lambda>_. - 1)"

section \<open>The single-pattern matcher: construction and scan\<close>

declare compareBack.simps [simp del] suffixScan.simps [simp del] suffixLoop.simps [simp del]
  gsFill.simps [simp del] gsPrefixLoop.simps [simp del] gsSuffixLoop.simps [simp del]

lemma at_Some [simp]: "0 \<le> i \<Longrightarrow> i < int (length xs) \<Longrightarrow> at xs i = Some (xs ! nat i)"
  by (simp add: at_def)

lemma put_Some [simp]: "0 \<le> i \<Longrightarrow> i < int (length xs) \<Longrightarrow> put xs i v = Some (xs[nat i := v])"
  by (simp add: put_def)

lemma normChar_foldCase: "normChar bm c = foldCase (ignoreCase bm) c"
  by (simp add: normChar_def foldCase_def toLower_def)

lemma compareBack_spec:
  "0 \<le> s \<Longrightarrow> s + int (length (pat bm)) \<le> int (length data) \<Longrightarrow>
   j < int (length (pat bm)) \<Longrightarrow> - 1 \<le> j \<Longrightarrow>
   \<exists>j'. compareBack bm data s j = Some j' \<and> - 1 \<le> j' \<and> j' \<le> j \<and>
        (\<forall>k. j' < k \<and> k \<le> j \<longrightarrow> pat bm ! nat k = normChar bm (data ! nat (s + k))) \<and>
        (0 \<le> j' \<longrightarrow> pat bm ! nat j' \<noteq> normChar bm (data ! nat (s + j')))"
proof (induction bm data s j rule: compareBack.induct)
  case (1 bm data s j)
  show ?case
  proof (cases "j \<ge> 0")
    case False
    with 1(5) have "j = - 1" by simp
    then show ?thesis by (subst compareBack.simps) auto
  next
    case True
    have a: "at (pat bm) j = Some (pat bm ! nat j)" using True 1(4) by simp
    have b: "at data (s + j) = Some (data ! nat (s + j))" using True 1(2,3,4) by simp
    show ?thesis
    proof (cases "pat bm ! nat j = normChar bm (data ! nat (s + j))")
      case False
      then show ?thesis using True a b by (subst compareBack.simps) auto
    next
      case eq: True
      from 1(1)[OF True a b eq 1(2,3)] 1(4) True
      obtain j' where j': "compareBack bm data s (j - 1) = Some j'" "- 1 \<le> j'" "j' \<le> j - 1"
        "\<forall>k. j' < k \<and> k \<le> j - 1 \<longrightarrow> pat bm ! nat k = normChar bm (data ! nat (s + k))"
        "0 \<le> j' \<longrightarrow> pat bm ! nat j' \<noteq> normChar bm (data ! nat (s + j'))"
        by auto
      have "\<forall>k. j' < k \<and> k \<le> j \<longrightarrow> pat bm ! nat k = normChar bm (data ! nat (s + k))"
      proof (intro allI impI)
        fix k assume "j' < k \<and> k \<le> j"
        then have "k \<le> j - 1 \<or> k = j" by auto
        then show "pat bm ! nat k = normChar bm (data ! nat (s + k))"
          using j'(4) eq \<open>j' < k \<and> k \<le> j\<close> by auto
      qed
      then show ?thesis using True a b eq j' by (subst compareBack.simps) simp
    qed
  qed
qed

lemma matchesAt_iff:
  "matchesAt ic P T s \<longleftrightarrow>
     0 \<le> s \<and> s + int (length P) \<le> int (length T) \<and>
     (\<forall>k < length P. foldCase ic (T ! (nat s + k)) = foldCase ic (P ! k))"
proof (cases "0 \<le> s \<and> s + int (length P) \<le> int (length T)")
  case False
  then show ?thesis by (auto simp: matchesAt_def)
next
  case True
  then have len: "nat s + length P \<le> length T" by linarith
  have "map (foldCase ic) (take (length P) (drop (nat s) T)) = map (foldCase ic) P \<longleftrightarrow>
        (\<forall>k < length P. foldCase ic (T ! (nat s + k)) = foldCase ic (P ! k))"
    using len by (auto simp: list_eq_iff_nth_eq min_def)
  then show ?thesis using True by (simp add: matchesAt_def)
qed

lemma scanStep_spec:
  assumes wf: "bm_for bm ic P" and s: "0 \<le> s" "s + int (length (pat bm)) \<le> int (length data)"
  shows "\<exists>s'. s < s' \<and>
           (if matchesAt ic P data s
            then scanStep bm data s results = Some (s', results @ [s]) \<and>
                 (\<forall>t. s < t \<and> matchesAt ic P data t \<longrightarrow> s' \<le> t)
            else scanStep bm data s results = Some (s', results))"
proof -
  let ?m = "int (length (pat bm))"
  let ?n = "int (length data)"
  have m: "0 < ?m" and lenP: "length (pat bm) = length P" and ic: "ignoreCase bm = ic"
    and pat: "pat bm = map (foldCase ic) P"
    using wf by (auto simp: bm_for_def bm_wf_def)
  from compareBack_spec[OF s, of "?m - 1"] m
  obtain j where j: "compareBack bm data s (?m - 1) = Some j" "- 1 \<le> j" "j \<le> ?m - 1"
     "\<forall>k. j < k \<and> k \<le> ?m - 1 \<longrightarrow> pat bm ! nat k = normChar bm (data ! nat (s + k))"
     "0 \<le> j \<longrightarrow> pat bm ! nat j \<noteq> normChar bm (data ! nat (s + j))"
    by auto
  have mt: "matchesAt ic P data s \<longleftrightarrow> j < 0"
  proof
    assume "j < 0"
    then have jm: "j = - 1" using j(2) by simp
    have "\<forall>k < length P. foldCase ic (data ! (nat s + k)) = foldCase ic (P ! k)"
    proof (intro allI impI)
      fix k assume k: "k < length P"
      then have "- 1 < int k \<and> int k \<le> ?m - 1" using lenP by simp
      then have "pat bm ! nat (int k) = normChar bm (data ! nat (s + int k))"
        using j(4) jm by blast
      moreover have "nat (s + int k) = nat s + k" using s(1) by linarith
      ultimately show "foldCase ic (data ! (nat s + k)) = foldCase ic (P ! k)"
        using k pat ic by (simp add: normChar_foldCase)
    qed
    then show "matchesAt ic P data s" using s lenP by (simp add: matchesAt_iff)
  next
    assume ma: "matchesAt ic P data s"
    show "j < 0"
    proof (rule ccontr)
      assume "\<not> j < 0"
      then have j0: "0 \<le> j" by simp
      then have "nat j < length P" using j(3) lenP by linarith
      with ma have "foldCase ic (data ! (nat s + nat j)) = foldCase ic (P ! nat j)"
        by (simp add: matchesAt_iff)
      moreover have "nat (s + j) = nat s + nat j" using s(1) j0 by linarith
      ultimately show False using j(5) j0 pat ic \<open>nat j < length P\<close>
        by (simp add: normChar_foldCase)
    qed
  qed
  show ?thesis
  proof (cases "j < 0")
    case True
    show ?thesis
    proof (cases "s + ?m < ?n")
      case False
      have "scanStep bm data s results = Some (s + 1, results @ [s])"
        using True False j(1) by (simp add: scanStep_def Let_def)
      then show ?thesis using True mt by auto
    next
      case lt: True
      let ?c = "normChar bm (data ! nat (s + ?m))"
      have bc: "- 1 \<le> bcShift bm ?c" "bcShift bm ?c < ?m"
        using wf by (auto simp: bm_for_def bm_wf_def)
      have safe: "\<forall>t. s < t \<and> matchesAt ic P data t \<longrightarrow> s + (?m - bcShift bm ?c) \<le> t"
      proof (intro allI impI)
        fix t assume t: "s < t \<and> matchesAt ic P data t"
        show "s + (?m - bcShift bm ?c) \<le> t"
        proof (cases "t - s \<le> ?m")
          case False
          then show ?thesis using bc by linarith
        next
          case d: True
          define k where "k = nat (?m - (t - s))"
          have k: "k < length P" using d t lenP by (simp add: k_def) linarith
          have pos: "nat t + k = nat (s + ?m)" using d t s(1) by (simp add: k_def) linarith
          from t k have "foldCase ic (data ! (nat t + k)) = foldCase ic (P ! k)"
            by (simp add: matchesAt_iff)
          then have "pat bm ! k = ?c" using pos pat ic k by (simp add: normChar_foldCase)
          moreover have "int k \<le> bcShift bm (pat bm ! k)"
            using wf k lenP by (auto simp: bm_for_def bm_wf_def)
          ultimately have "int k \<le> bcShift bm ?c" by simp
          then show ?thesis using d t by (simp add: k_def)
        qed
      qed
      have "at data (s + ?m) = Some (data ! nat (s + ?m))" using lt s(1) by simp
      then have "scanStep bm data s results = Some (s + (?m - bcShift bm ?c), results @ [s])"
        using True lt j(1) by (simp add: scanStep_def Let_def)
      moreover have "s < s + (?m - bcShift bm ?c)" using bc by simp
      ultimately show ?thesis using True mt safe by auto
    qed
  next
    case False
    then have j0: "0 \<le> j" by simp
    let ?c = "normChar bm (data ! nat (s + j))"
    have a1: "at data (s + j) = Some (data ! nat (s + j))" using j0 j(3) s by simp
    have a2: "at (gsShift bm) j = Some (gsShift bm ! nat j)"
      using j0 j(3) wf by (auto simp: bm_for_def bm_wf_def)
    define sh where "sh = max (max 1 (j - bcShift bm ?c)) (gsShift bm ! nat j)"
    have "scanStep bm data s results = Some (s + sh, results)"
      using False j(1) a1 a2 by (simp add: scanStep_def Let_def sh_def max_def)
    moreover have "s < s + sh" by (simp add: sh_def max_def)
    ultimately show ?thesis using False mt by auto
  qed
qed

lemma scanLoop_spec:
  assumes wf: "bm_for bm ic P"
  shows "0 \<le> s \<Longrightarrow>
         \<exists>found. scanLoop bm data s results = Some (results @ found) \<and>
                 (\<forall>t \<in> set found. s \<le> t \<and> matchesAt ic P data t)"
proof (induction "nat (int (length data) - s + 1)" arbitrary: s results rule: less_induct)
  case less
  let ?m = "int (length (pat bm))"
  let ?n = "int (length data)"
  have m: "0 < ?m" using wf by (auto simp: bm_for_def bm_wf_def)
  show ?case
  proof (cases "s \<le> ?n - ?m")
    case False
    then show ?thesis by (subst scanLoop.simps) simp
  next
    case True
    then have s2: "s + ?m \<le> ?n" by simp
    from scanStep_spec[OF wf less.prems s2, of results]
    obtain s' where s': "s < s'"
      "if matchesAt ic P data s
       then scanStep bm data s results = Some (s', results @ [s]) \<and>
            (\<forall>t. s < t \<and> matchesAt ic P data t \<longrightarrow> s' \<le> t)
       else scanStep bm data s results = Some (s', results)" by blast
    have IH: "\<And>r. \<exists>found. scanLoop bm data s' r = Some (r @ found) \<and>
                 (\<forall>t \<in> set found. s' \<le> t \<and> matchesAt ic P data t)"
      using less.hyps[of s'] s'(1) less.prems True m by simp
    show ?thesis
    proof (cases "matchesAt ic P data s")
      case ma: True
      from IH[of "results @ [s]"] obtain found where
        f: "scanLoop bm data s' (results @ [s]) = Some ((results @ [s]) @ found)"
           "\<forall>t \<in> set found. s' \<le> t \<and> matchesAt ic P data t" by blast
      have "scanLoop bm data s results = Some (results @ (s # found))"
        using s'(2) ma True f(1) by (subst scanLoop.simps) simp
      moreover have "\<forall>t \<in> set (s # found). s \<le> t \<and> matchesAt ic P data t"
        using f(2) ma s'(1) by auto
      ultimately show ?thesis by blast
    next
      case nm: False
      from IH[of results] obtain found where
        f: "scanLoop bm data s' results = Some (results @ found)"
           "\<forall>t \<in> set found. s' \<le> t \<and> matchesAt ic P data t" by blast
      have "scanLoop bm data s results = Some (results @ found)"
        using s'(2) nm True f(1) by (subst scanLoop.simps) simp
      moreover have "\<forall>t \<in> set found. s \<le> t \<and> matchesAt ic P data t"
        using f(2) s'(1) by auto
      ultimately show ?thesis by blast
    qed
  qed
qed

lemma suffixScan_spec:
  "0 \<le> f \<Longrightarrow> f < int (length p) \<Longrightarrow> - 1 \<le> g \<Longrightarrow> g \<le> f \<Longrightarrow>
   \<exists>g'. suffixScan p f g = Some g' \<and> - 1 \<le> g' \<and> g' \<le> g"
proof (induction p f g rule: suffixScan.induct)
  case (1 p f g)
  show ?case
  proof (cases "g \<ge> 0")
    case False
    then show ?thesis by (subst suffixScan.simps) (use 1(4) in simp)
  next
    case True
    have a: "at p g = Some (p ! nat g)" using True 1(3,5) by simp
    have b: "at p (g + int (length p) - 1 - f) = Some (p ! nat (g + int (length p) - 1 - f))"
      using True 1(2,3,5) by simp
    show ?thesis
    proof (cases "p ! nat g = p ! nat (g + int (length p) - 1 - f)")
      case False
      then show ?thesis using True a b by (subst suffixScan.simps) simp
    next
      case eq: True
      from 1(1)[OF True a b eq 1(2,3)] True 1(5)
      obtain g' where "suffixScan p f (g - 1) = Some g'" "- 1 \<le> g'" "g' \<le> g - 1" by auto
      then show ?thesis using True a b eq by (subst suffixScan.simps) simp
    qed
  qed
qed

lemma suffix_ok_update:
  assumes "suffix_ok suff m i" "0 \<le> i" "i < int m" "0 \<le> v" "v \<le> i + 1"
  shows "suffix_ok (suff[nat i := v]) m (i - 1)"
proof -
  have "0 \<le> suff[nat i := v] ! k \<and> suff[nat i := v] ! k \<le> int k + 1"
    if k: "k < m" "i - 1 < int k" for k
  proof (cases "k = nat i")
    case True
    then show ?thesis using assms k by (simp add: suffix_ok_def)
  next
    case False
    then have "i < int k" using k(2) assms(2) by linarith
    then show ?thesis using assms(1) k(1) False by (simp add: suffix_ok_def)
  qed
  then show ?thesis using assms(1) by (simp add: suffix_ok_def)
qed

lemma suffixLoop_spec:
  "suffix_ok suff (length p) i \<Longrightarrow> - 1 \<le> i \<Longrightarrow> i < f \<Longrightarrow> f < int (length p) \<Longrightarrow>
   - 1 \<le> g \<Longrightarrow> i < g \<or> f < int (length p) - 1 \<Longrightarrow>
   \<exists>suff'. suffixLoop p i g f suff = Some suff' \<and> suffix_ok suff' (length p) (- 1)"
proof (induction p i g f suff rule: suffixLoop.induct)
  case (1 p i g f suff)
  let ?m = "int (length p)"
  have len: "length suff = length p" using 1(3) by (simp add: suffix_ok_def)
  show ?case
  proof (cases "i \<ge> 0")
    case False
    then have "i = - 1" using 1(4) by simp
    then show ?thesis using 1(3) by (subst suffixLoop.simps) simp
  next
    case True
    let ?idx = "i + ?m - 1 - f"
    show ?thesis
    proof (cases "i > g \<and> suff ! nat ?idx < i - g")
      case reuse: True
      then have f2: "f < ?m - 1" using 1(8) by auto
      have idx: "0 \<le> ?idx" "?idx < ?m" "i < ?idx" using True 1(5,6) f2 by auto
      have rd: "at suff ?idx = Some (suff ! nat ?idx)" using idx len by simp
      let ?v = "suff ! nat ?idx"
      have "nat ?idx < length p" "i < int (nat ?idx)" using idx by auto
      then have v0: "0 \<le> ?v" using 1(3) by (simp add: suffix_ok_def)
      have v1: "?v \<le> i + 1" using reuse 1(7) by linarith
      have wr: "put suff i ?v = Some (suff[nat i := ?v])" using True 1(5,6) len by simp
      have ok: "suffix_ok (suff[nat i := ?v]) (length p) (i - 1)"
        using suffix_ok_update[OF 1(3) True _ v0 v1] 1(5,6) by simp
      have r: "(if i > g then do { v \<leftarrow> at suff ?idx; Some (v < i - g) } else Some False)
                 = Some True" using reuse rd by simp
      from 1(1)[OF True r _ rd wr ok] True 1(5,6,7) f2
      obtain suff' where "suffixLoop p (i - 1) g f (suff[nat i := ?v]) = Some suff'"
        "suffix_ok suff' (length p) (- 1)" by auto
      then show ?thesis using True r rd wr by (subst suffixLoop.simps) simp
    next
      case scan: False
      have rd: "i > g \<Longrightarrow> at suff ?idx = Some (suff ! nat ?idx)"
        using True 1(5,6,8) len by simp
      have r: "(if i > g then do { v \<leftarrow> at suff ?idx; Some (v < i - g) } else Some False)
                 = Some False" using scan rd by auto
      from suffixScan_spec[of i p i] True 1(5,6)
      obtain g' where g': "suffixScan p i i = Some g'" "- 1 \<le> g'" "g' \<le> i" by auto
      have wr: "put suff i (i - g') = Some (suff[nat i := i - g'])"
        using True 1(5,6) len by simp
      have ok: "suffix_ok (suff[nat i := i - g']) (length p) (i - 1)"
        using suffix_ok_update[OF 1(3) True, of "i - g'"] 1(5,6) g' by simp
      from 1(2)[OF True r _ g'(1) wr ok] True 1(5,6) g'
      obtain suff' where "suffixLoop p (i - 1) g' i (suff[nat i := i - g']) = Some suff'"
        "suffix_ok suff' (length p) (- 1)" by auto
      then show ?thesis using True r g'(1) wr by (subst suffixLoop.simps) simp
    qed
  qed
qed

lemma gs_ok_update: "gs_ok gs m \<Longrightarrow> 1 \<le> v \<Longrightarrow> gs_ok (gs[k := v]) m"
  using set_update_subset_insert[of gs k v] by (auto simp: gs_ok_def)

lemma gsFill_spec:
  "gs_ok gs (nat m) \<Longrightarrow> 0 \<le> i \<Longrightarrow> 0 \<le> j \<Longrightarrow>
   \<exists>j' gs'. gsFill m i j gs = Some (j', gs') \<and> 0 \<le> j' \<and> gs_ok gs' (nat m)"
proof (induction m i j gs rule: gsFill.induct)
  case (1 m i j gs)
  show ?case
  proof (cases "j < m - 1 - i")
    case False
    then show ?thesis using 1(2,4) by (subst gsFill.simps) simp
  next
    case True
    have len: "int (length gs) = m" using 1(2) True 1(3,4) by (simp add: gs_ok_def)
    have rd: "at gs j = Some (gs ! nat j)" using True 1(3,4) len by simp
    define gs' where "gs' = (if gs ! nat j = m then gs[nat j := m - 1 - i] else gs)"
    have w: "(if gs ! nat j = m then put gs j (m - 1 - i) else Some gs) = Some gs'"
      using True 1(3,4) len by (simp add: gs'_def)
    have ok: "gs_ok gs' (nat m)" using 1(2) True 1(4) by (simp add: gs'_def gs_ok_update)
    from 1(1)[OF True rd w ok 1(3)] 1(4)
    obtain j' gs'' where "gsFill m i (j + 1) gs' = Some (j', gs'')" "0 \<le> j'" "gs_ok gs'' (nat m)"
      by auto
    then show ?thesis using True rd w by (subst gsFill.simps) simp
  qed
qed

lemma gsPrefixLoop_spec:
  "gs_ok gs (nat m) \<Longrightarrow> length suff = nat m \<Longrightarrow> - 1 \<le> i \<Longrightarrow> i < m \<Longrightarrow> 0 \<le> j \<Longrightarrow>
   \<exists>gs'. gsPrefixLoop m suff i j gs = Some gs' \<and> gs_ok gs' (nat m)"
proof (induction m suff i j gs rule: gsPrefixLoop.induct)
  case (1 m suff i j gs)
  show ?case
  proof (cases "i \<ge> 0")
    case False
    then show ?thesis using 1(2) by (subst gsPrefixLoop.simps) simp
  next
    case True
    have rd: "at suff i = Some (suff ! nat i)" using True 1(3,5) by simp
    obtain j' gs' where f: "(if suff ! nat i = i + 1 then gsFill m i j gs else Some (j, gs)) = Some (j', gs')"
      "0 \<le> j'" "gs_ok gs' (nat m)"
      using gsFill_spec[OF 1(2) True 1(6)] 1(2,6) by (cases "suff ! nat i = i + 1") auto
    from 1(1)[OF True rd f(1) refl f(3) 1(3)] True 1(5) f(2)
    obtain gs'' where "gsPrefixLoop m suff (i - 1) j' gs' = Some gs''" "gs_ok gs'' (nat m)"
      by auto
    then show ?thesis using True rd f(1) by (subst gsPrefixLoop.simps) simp
  qed
qed

lemma gsSuffixLoop_spec:
  "gs_ok gs (nat m) \<Longrightarrow> suffix_ok suff (nat m) (- 1) \<Longrightarrow> 0 \<le> i \<Longrightarrow>
   \<exists>gs'. gsSuffixLoop m suff i gs = Some gs' \<and> gs_ok gs' (nat m)"
proof (induction m suff i gs rule: gsSuffixLoop.induct)
  case (1 m suff i gs)
  show ?case
  proof (cases "i < m - 1")
    case False
    then show ?thesis using 1(2) by (subst gsSuffixLoop.simps) simp
  next
    case True
    have len: "length suff = nat m" "length gs = nat m"
      using 1(2,3) by (auto simp: suffix_ok_def gs_ok_def)
    have rd: "at suff i = Some (suff ! nat i)" using True 1(4) len by simp
    let ?v = "suff ! nat i"
    have "nat i < nat m" "- 1 < int (nat i)" using True 1(4) by auto
    moreover have "\<forall>k < nat m. - 1 < int k \<longrightarrow> 0 \<le> suff ! k \<and> suff ! k \<le> int k + 1"
      using 1(3) by (simp add: suffix_ok_def)
    ultimately have "0 \<le> ?v \<and> ?v \<le> int (nat i) + 1" by blast
    then have v: "0 \<le> ?v" "?v \<le> i + 1" using 1(4) by auto
    have wr: "put gs (m - 1 - ?v) (m - 1 - i) = Some (gs[nat (m - 1 - ?v) := m - 1 - i])"
      using v True 1(4) len by simp
    have ok: "gs_ok (gs[nat (m - 1 - ?v) := m - 1 - i]) (nat m)"
      using 1(2) True by (simp add: gs_ok_update)
    from 1(1)[OF True rd wr ok 1(3)] 1(4)
    obtain gs' where "gsSuffixLoop m suff (i + 1) (gs[nat (m - 1 - ?v) := m - 1 - i]) = Some gs'"
      "gs_ok gs' (nat m)" by auto
    then show ?thesis using True rd wr by (subst gsSuffixLoop.simps) simp
  qed
qed

lemma buildGoodSuffixShift_spec:
  assumes "pat bm \<noteq> []"
  shows "\<exists>gs. buildGoodSuffixShift bm = Some (bm\<lparr>gsShift := gs\<rparr>) \<and> gs_ok gs (length (pat bm))"
proof -
  let ?p = "pat bm"
  let ?m = "int (length ?p)"
  let ?s0 = "(replicate (length ?p) (0::int))[nat (?m - 1) := ?m]"
  have m: "0 < ?m" using assms by simp
  have p0: "put (replicate (length ?p) 0) (?m - 1) ?m = Some ?s0" using m by simp
  have last: "nat (?m - 1) < length (replicate (length ?p) (0::int))"
    using assms by (cases "pat bm") auto
  have "0 \<le> ?s0 ! k \<and> ?s0 ! k \<le> int k + 1" if "k < length ?p" "?m - 2 < int k" for k
  proof -
    from that have "k = nat (?m - 1)" by linarith
    then show ?thesis using last m by simp
  qed
  then have ok0: "suffix_ok ?s0 (length ?p) (?m - 2)" by (simp add: suffix_ok_def)
  from suffixLoop_spec[OF ok0, of "?m - 1" "?m - 1"] m
  obtain suff where suff: "suffixLoop ?p (?m - 2) (?m - 1) (?m - 1) ?s0 = Some suff"
    "suffix_ok suff (length ?p) (- 1)" by auto
  have g0: "gs_ok (replicate (length ?p) ?m) (nat ?m)"
    using assms by (cases "pat bm") (auto simp: gs_ok_def)
  from gsPrefixLoop_spec[OF g0, of suff "?m - 1" 0] suff(2) m
  obtain gs1 where gs1: "gsPrefixLoop ?m suff (?m - 1) 0 (replicate (length ?p) ?m) = Some gs1"
    "gs_ok gs1 (nat ?m)" by (auto simp: suffix_ok_def)
  from gsSuffixLoop_spec[OF gs1(2), of suff 0] suff(2)
  obtain gs2 where gs2: "gsSuffixLoop ?m suff 0 gs1 = Some gs2" "gs_ok gs2 (nat ?m)" by auto
  have "buildGoodSuffixShift bm = Some (bm\<lparr>gsShift := gs2\<rparr>)"
    using p0 suff(1) gs1(1) gs2(1) by (simp add: buildGoodSuffixShift_def Let_def)
  then show ?thesis using gs2(2) by auto
qed

lemma of_char_byte_add:
  "of_char c + k < (256::nat) \<Longrightarrow> of_char (byte_add c k) = (of_char c + k :: nat)"
  by (simp add: byte_add_def)

lemma toLower_idem [simp]: "toLower (toLower c) = toLower c"
proof (cases "CHR ''A'' \<le> c \<and> c \<le> CHR ''Z''")
  case False
  then have "toLower c = c" by (auto simp: toLower_def)
  then show ?thesis by simp
next
  case True
  then have r: "(65::nat) \<le> of_char c" "of_char c \<le> (90::nat)"
    by (simp_all add: less_eq_char_def)
  then have "of_char (byte_add c 32) = (of_char c + 32 :: nat)"
    by (intro of_char_byte_add) simp
  then have "\<not> byte_add c 32 \<le> CHR ''Z''" using r by (simp add: less_eq_char_def)
  then show ?thesis using True by (simp add: toLower_def)
qed

lemma foldCase_False [simp]: "foldCase False = (\<lambda>c. c)"
  by (rule ext) (simp add: foldCase_def)

lemma foldCase_True [simp]: "foldCase True = toLower"
  by (rule ext) (simp add: foldCase_def)

lemma foldCase_idem [simp]: "foldCase ic (foldCase ic c) = foldCase ic c"
  by (simp add: foldCase_def)

lemma bcTable_0 [simp]: "bcTable p 0 = (\<lambda>_. - 1)"
  by (simp add: bcTable_def)

lemma bcTable_Suc [simp]: "bcTable p (Suc k) = (bcTable p k)(p ! k := int k)"
  by (simp add: bcTable_def)

lemma bcTable_absent: "(\<forall>i < k. p ! i \<noteq> b) \<Longrightarrow> bcTable p k b = - 1"
  by (induction k) auto

lemma bcTable_last:
  "i < k \<Longrightarrow> p ! i = b \<Longrightarrow> (\<forall>j. i < j \<and> j < k \<longrightarrow> p ! j \<noteq> b) \<Longrightarrow> bcTable p k b = int i"
proof (induction k)
  case 0
  then show ?case by simp
next
  case (Suc k)
  show ?case
  proof (cases "i = k")
    case True
    then show ?thesis using Suc.prems by simp
  next
    case False
    then have "i < k" using Suc.prems(1) by simp
    moreover have "p ! k \<noteq> b" using Suc.prems(3) \<open>i < k\<close> by auto
    ultimately show ?thesis using Suc by auto
  qed
qed

lemma bcTable_range: "- 1 \<le> bcTable p k b \<and> bcTable p k b < int k"
  by (induction k) auto

lemma bcTable_ge: "i < k \<Longrightarrow> int i \<le> bcTable p k (p ! i)"
proof (induction k)
  case 0
  then show ?case by simp
next
  case (Suc k)
  then show ?case by (cases "i = k") (auto simp: less_Suc_eq)
qed

lemma bcShift_buildBadCharShift: "bcShift (buildBadCharShift bm) = bcTable (pat bm) (length (pat bm))"
  by (simp add: buildBadCharShift_def bcTable_def)

lemma bm_New_nonempty:
  assumes "P \<noteq> []"
  shows "\<exists>gs. bm_New P ic = Some \<lparr>pat = map (foldCase ic) P, ignoreCase = ic,
                    bcShift = bcTable (map (foldCase ic) P) (length P), gsShift = gs\<rparr> \<and>
              gs_ok gs (length P)"
proof -
  define p where "p = map (foldCase ic) P"
  have p: "(if ic then map (\<lambda>c. if CHR ''A'' \<le> c \<and> c \<le> CHR ''Z''
                                then byte_add c (of_char CHR ''a'' - of_char CHR ''A'') else c) P
            else P) = p"
    by (cases ic) (simp_all add: p_def toLower_def)
  define bm0 where "bm0 = \<lparr>pat = p, ignoreCase = ic, bcShift = (\<lambda>_. 0::int),
                            gsShift = replicate (length p) (0::int)\<rparr>"
  have pne: "pat (buildBadCharShift bm0) \<noteq> []"
    using assms by (simp add: buildBadCharShift_def bm0_def p_def)
  from buildGoodSuffixShift_spec[OF pne]
  obtain gs where gs: "buildGoodSuffixShift (buildBadCharShift bm0)
                         = Some ((buildBadCharShift bm0)\<lparr>gsShift := gs\<rparr>)"
     "gs_ok gs (length (pat (buildBadCharShift bm0)))" by blast
  have eq: "(buildBadCharShift bm0)\<lparr>gsShift := gs\<rparr> =
        \<lparr>pat = p, ignoreCase = ic, bcShift = bcTable p (length P), gsShift = gs\<rparr>"
    by (simp add: buildBadCharShift_def bm0_def bcTable_def p_def)
  have "bm_New P ic = Some \<lparr>pat = p, ignoreCase = ic, bcShift = bcTable p (length P), gsShift = gs\<rparr>"
    using assms gs(1) eq p unfolding bm_New_def bm0_def by (simp add: Let_def)
  moreover have "gs_ok gs (length P)" using gs(2) by (simp add: buildBadCharShift_def bm0_def p_def)
  ultimately show ?thesis unfolding p_def by blast
qed

lemma bm_New_empty:
  "bm_New [] ic = Some \<lparr>pat = [], ignoreCase = ic, bcShift = (\<lambda>_. 0), gsShift = []\<rparr>"
  by (simp add: bm_New_def)

lemma bm_New_for:
  assumes "P \<noteq> []"
  shows "\<exists>bm. bm_New P ic = Some bm \<and> bm_for bm ic P"
proof -
  from bm_New_nonempty[OF assms, of ic] obtain gs where
    gs: "bm_New P ic = Some \<lparr>pat = map (foldCase ic) P, ignoreCase = ic,
                    bcShift = bcTable (map (foldCase ic) P) (length P), gsShift = gs\<rparr>"
        "gs_ok gs (length P)" by blast
  let ?bm = "\<lparr>pat = map (foldCase ic) P, ignoreCase = ic,
                    bcShift = bcTable (map (foldCase ic) P) (length P), gsShift = gs\<rparr>"
  have "bm_wf ?bm"
    using assms gs(2) bcTable_range[of "map (foldCase ic) P" "length P"]
      bcTable_ge[of _ "length P" "map (foldCase ic) P"]
    by (simp add: bm_wf_def gs_ok_def)
  then have "bm_for ?bm ic P" by (simp add: bm_for_def)
  then show ?thesis using gs(1) by blast
qed

lemma bm_findAll_total:
  assumes "bm_for bm ic P"
  shows "\<exists>res. bm_findAll bm T = Some res \<and> (\<forall>s \<in> set res. matchesAt ic P T s)"
proof (cases "length (pat bm) = 0 \<or> length T = 0 \<or> length (pat bm) > length T")
  case True
  then show ?thesis by (auto simp: bm_findAll_def Let_def)
next
  case False
  from scanLoop_spec[OF assms, of 0 T "[]"] obtain found where
    "scanLoop bm T 0 [] = Some found" "\<forall>t \<in> set found. matchesAt ic P T t" by auto
  then show ?thesis using False by (auto simp: bm_findAll_def Let_def)
qed

lemma bm_New_cases:
  obtains (empty) "P = []"
      "bm_New P ic = Some \<lparr>pat = [], ignoreCase = ic, bcShift = (\<lambda>_. 0), gsShift = []\<rparr>"
  | (nonempty) bm where "P \<noteq> []" "bm_New P ic = Some bm" "bm_for bm ic P"
proof (cases "P = []")
  case True
  then show ?thesis using empty bm_New_empty by simp
next
  case False
  from bm_New_for[OF False, of ic] obtain bm where "bm_New P ic = Some bm" "bm_for bm ic P"
    by blast
  then show ?thesis using nonempty False by blast
qed

subsection \<open>Claims about the single-pattern matcher\<close>

text \<open>
  C1. For every pattern \<open>P\<close>, flag \<open>ic\<close> and text \<open>T\<close>, construction and \<^verbatim>\<open>FindAll\<close> /
  \<^verbatim>\<open>FindAllBytes\<close> return, and every start index \<open>s\<close> they return satisfies: the slice
  \<open>T[s..s+len(P))\<close> equals \<open>P\<close> under the active case policy.
\<close>

theorem bm_findAll_sound:
  "\<exists>bm res. bm_New P ic = Some bm \<and> bm_FindAll bm T = Some res \<and>
             bm_FindAllBytes bm T = Some res \<and> (\<forall>s \<in> set res. matchesAt ic P T s)"
proof (cases P ic rule: bm_New_cases)
  case empty
  then show ?thesis by (simp add: bm_FindAll_def bm_FindAllBytes_def bm_findAll_def)
next
  case (nonempty bm)
  from bm_findAll_total[OF nonempty(3), of T] nonempty(2)
  show ?thesis by (auto simp: bm_FindAll_def bm_FindAllBytes_def)
qed

theorem bm_findAll_sound_witness:
  "\<exists>bm res. bm_New ''ab'' False = Some bm \<and> bm_FindAll bm ''xab'' = Some res \<and>
             1 \<in> set res \<and> matchesAt False ''ab'' ''xab'' 1"
proof -
  from bm_findAll_sound[of "''ab''" False "''xab''"] obtain bm res where
    r: "bm_New ''ab'' False = Some bm" "bm_FindAll bm ''xab'' = Some res"
       "\<forall>s \<in> set res. matchesAt False ''ab'' ''xab'' s" by blast
  have "(bm_New ''ab'' False \<bind> (\<lambda>bm. bm_FindAll bm ''xab'')) = Some [1]" by code_simp
  then have "res = [1]" using r(1,2) by simp
  then show ?thesis using r by auto
qed

text \<open>
  C3, as the specification states it: some full match at a window start \<open>s\<close> is followed by a
  post-match shift that carries the window past an occurrence starting strictly inside the
  window just matched. No pattern, text and window do that: the statement is refuted.
\<close>

theorem bm_post_match_skip_refuted:
  "\<not> (\<exists>P ic T bm s s' results nxt results'.
        bm_New P ic = Some bm \<and> matchesAt ic P T s \<and> matchesAt ic P T s' \<and>
        s < s' \<and> s' < s + int (length P) \<and>
        scanStep bm T s results = Some (nxt, results') \<and> s' < nxt)"
proof
  assume "\<exists>P ic T bm s s' results nxt results'.
        bm_New P ic = Some bm \<and> matchesAt ic P T s \<and> matchesAt ic P T s' \<and>
        s < s' \<and> s' < s + int (length P) \<and>
        scanStep bm T s results = Some (nxt, results') \<and> s' < nxt"
  then obtain P ic T bm s s' results nxt results' where
    h: "bm_New P ic = Some bm" "matchesAt ic P T s" "matchesAt ic P T s'" "s < s'"
       "s' < s + int (length P)" "scanStep bm T s results = Some (nxt, results')" "s' < nxt"
    by blast
  from h(4,5) have ne: "P \<noteq> []" by auto
  from bm_New_for[OF ne, of ic] h(1) have wf: "bm_for bm ic P" by auto
  then have len: "length (pat bm) = length P" by (simp add: bm_for_def)
  from h(2) len have "0 \<le> s" "s + int (length (pat bm)) \<le> int (length T)"
    by (simp_all add: matchesAt_def)
  from scanStep_spec[OF wf this, of results] h(2) obtain t where
    "scanStep bm T s results = Some (t, results @ [s])"
    "\<forall>u. s < u \<and> matchesAt ic P T u \<longrightarrow> t \<le> u" by auto
  then show False using h(3,4,6,7) by auto
qed

text \<open>
  C3, amended: for every pattern and text, when the window at \<open>s\<close> is a full match, the
  loop body records \<open>s\<close> and moves the window forward by at least 1 and to a start no later
  than any occurrence \<open>s'\<close> that begins strictly inside the window just matched; the
  post-match shift skips no such occurrence.
\<close>

theorem bm_post_match_no_skip:
  assumes "bm_New P ic = Some bm" and "matchesAt ic P T s" and "matchesAt ic P T s'"
    and "s < s'" and "s' < s + int (length P)"
  shows "\<exists>nxt. scanStep bm T s results = Some (nxt, results @ [s]) \<and> s < nxt \<and> nxt \<le> s'"
proof -
  from assms(4,5) have ne: "P \<noteq> []" by auto
  from bm_New_for[OF ne, of ic] assms(1) have wf: "bm_for bm ic P" by auto
  then have len: "length (pat bm) = length P" by (simp add: bm_for_def)
  from assms(2) len have "0 \<le> s" "s + int (length (pat bm)) \<le> int (length T)"
    by (simp_all add: matchesAt_def)
  from scanStep_spec[OF wf this, of results] assms(2) obtain t where
    "s < t" "scanStep bm T s results = Some (t, results @ [s])"
    "\<forall>u. s < u \<and> matchesAt ic P T u \<longrightarrow> t \<le> u" by auto
  then show ?thesis using assms(3,4) by auto
qed

theorem bm_post_match_no_skip_witness:
  "\<exists>bm. bm_New ''aa'' False = Some bm \<and>
        matchesAt False ''aa'' ''aaa'' 0 \<and> matchesAt False ''aa'' ''aaa'' 1 \<and>
        (\<exists>nxt. scanStep bm ''aaa'' 0 [] = Some (nxt, [] @ [0]) \<and> 0 < nxt \<and> nxt \<le> 1)"
proof -
  obtain bm where bm: "bm_New ''aa'' False = Some bm"
    using bm_New_for[of "''aa''" False] by auto
  have m0: "matchesAt False ''aa'' ''aaa'' 0" and m1: "matchesAt False ''aa'' ''aaa'' 1"
    by (simp_all add: matchesAt_def)
  from bm_post_match_no_skip[OF bm m0 m1, of "[]"] bm m0 m1 show ?thesis by auto
qed

text \<open>
  C6. For every pattern of length \<open>m\<close> and input of length \<open>n\<close>, \<^verbatim>\<open>FindAll\<close> /
  \<^verbatim>\<open>FindAllBytes\<close> return the empty result, and no error, whenever \<open>m = 0\<close>, \<open>n = 0\<close> or
  \<open>m > n\<close>.
\<close>

theorem bm_findAll_boundary:
  "\<exists>bm. bm_New P ic = Some bm \<and>
        (length P = 0 \<or> length T = 0 \<or> length P > length T \<longrightarrow>
           bm_FindAll bm T = Some [] \<and> bm_FindAllBytes bm T = Some [])"
proof (cases P ic rule: bm_New_cases)
  case empty
  then show ?thesis by (simp add: bm_FindAll_def bm_FindAllBytes_def bm_findAll_def)
next
  case (nonempty bm)
  then have "length (pat bm) = length P" by (simp add: bm_for_def)
  then show ?thesis using nonempty(2)
    by (auto simp: bm_FindAll_def bm_FindAllBytes_def bm_findAll_def Let_def)
qed

theorem bm_findAll_boundary_witness:
  "(\<exists>bm. bm_New '''' False = Some bm \<and> length '''' = 0 \<and>
         bm_FindAll bm ''ABC'' = Some [] \<and> bm_FindAllBytes bm ''ABC'' = Some []) \<and>
   (\<exists>bm. bm_New ''a'' True = Some bm \<and> length '''' = 0 \<and>
         bm_FindAll bm '''' = Some [] \<and> bm_FindAllBytes bm '''' = Some []) \<and>
   (\<exists>bm. bm_New ''ABCDEFG'' False = Some bm \<and> length ''ABCDEFG'' > length ''ABC'' \<and>
         bm_FindAll bm ''ABC'' = Some [] \<and> bm_FindAllBytes bm ''ABC'' = Some [])"
  using bm_findAll_boundary[of "''''" False "''ABC''"]
    bm_findAll_boundary[of "''a''" True "''''"]
    bm_findAll_boundary[of "''ABCDEFG''" False "''ABC''"]
  by simp

text \<open>
  C7, as the specification states it for every pattern: an absent byte is mapped to \<open>-1\<close>.
  For the empty pattern \<^const>\<open>bm_New\<close> returns early with the zero-valued array, so the byte
  \<open>a\<close>, absent from the empty pattern, is mapped to 0.
\<close>

theorem bm_bcShift_empty_pattern:
  "map_option (\<lambda>bm. bcShift bm CHR ''a'') (bm_New '''' False) = Some 0 \<and>
   CHR ''a'' \<notin> set (map (foldCase False) '''')"
  by (simp add: bm_New_def)

text \<open>
  C7, amended: for every non-empty pattern and flag, after construction the bad-character
  table maps each byte \<open>b\<close> to the largest index \<open>i\<close> of the folded pattern with
  \<open>pattern[i] = b\<close>, and to \<open>-1\<close> when \<open>b\<close> does not occur in the folded pattern; for the empty
  pattern every entry is 0.
\<close>

theorem bm_bcShift_last_occurrence:
  "\<exists>bm. bm_New P ic = Some bm \<and> pat bm = map (foldCase ic) P \<and>
        (P = [] \<longrightarrow> (\<forall>b. bcShift bm b = 0)) \<and>
        (P \<noteq> [] \<longrightarrow>
           (\<forall>b. (b \<notin> set (pat bm) \<longrightarrow> bcShift bm b = - 1) \<and>
                (\<forall>i < length (pat bm).
                    pat bm ! i = b \<and> (\<forall>j < length (pat bm). pat bm ! j = b \<longrightarrow> j \<le> i)
                    \<longrightarrow> bcShift bm b = int i)))"
proof (cases "P = []")
  case True
  then show ?thesis by (simp add: bm_New_def)
next
  case False
  let ?p = "map (foldCase ic) P"
  from bm_New_nonempty[OF False, of ic] obtain gs where
    gs: "bm_New P ic = Some \<lparr>pat = ?p, ignoreCase = ic,
                    bcShift = bcTable ?p (length P), gsShift = gs\<rparr>" by blast
  have a: "bcTable ?p (length P) b = - 1" if "b \<notin> set ?p" for b
  proof (rule bcTable_absent, intro allI impI)
    fix i assume "i < length P"
    then have "?p ! i \<in> set ?p" by (metis length_map nth_mem)
    then show "?p ! i \<noteq> b" using that by auto
  qed
  have l: "bcTable ?p (length P) b = int i"
    if "i < length P" "?p ! i = b" "\<forall>j < length P. ?p ! j = b \<longrightarrow> j \<le> i" for b i
    using that by (intro bcTable_last) auto
  show ?thesis using gs False a l by auto
qed

theorem bm_bcShift_last_occurrence_witness:
  "\<exists>bm. bm_New ''abcab'' False = Some bm \<and> ''abcab'' \<noteq> [] \<and>
        CHR ''z'' \<notin> set (pat bm) \<and> bcShift bm CHR ''z'' = - 1 \<and>
        pat bm ! 3 = CHR ''a'' \<and> bcShift bm CHR ''a'' = 3 \<and>
        pat bm ! 2 = CHR ''c'' \<and> bcShift bm CHR ''c'' = 2"
proof -
  from bm_bcShift_last_occurrence[of "''abcab''" False] obtain bm where
    bm: "bm_New ''abcab'' False = Some bm" "pat bm = ''abcab''"
    and absent: "\<And>b. b \<notin> set (pat bm) \<Longrightarrow> bcShift bm b = - 1"
    and last: "\<And>b i. i < length (pat bm) \<Longrightarrow> pat bm ! i = b \<Longrightarrow>
                 (\<forall>j < length (pat bm). pat bm ! j = b \<longrightarrow> j \<le> i) \<Longrightarrow> bcShift bm b = int i"
    by auto
  have z: "bcShift bm CHR ''z'' = - 1" using absent[of "CHR ''z''"] bm(2) by simp
  have a: "bcShift bm CHR ''a'' = 3"
    using last[of 3 "CHR ''a''"] bm(2) by (simp add: less_Suc_eq numeral_eq_Suc)
  have c: "bcShift bm CHR ''c'' = 2"
    using last[of 2 "CHR ''c''"] bm(2) by (simp add: less_Suc_eq numeral_eq_Suc)
  show ?thesis using bm z a c by simp
qed

text \<open>
  C10. For every pattern and every input the scan returns. For a non-empty pattern every
  bad-character entry is at most \<open>m - 1\<close>, the good-suffix table has \<open>m\<close> entries, each at
  least 1, and from every window start \<open>s\<close> the loop is entered with (\<open>0 \<le> s \<le> n - m\<close>) the
  body yields a strictly larger window start.
\<close>

theorem bm_scan_terminates:
  "\<exists>bm. bm_New P ic = Some bm \<and>
        (\<forall>T. \<exists>res. bm_findAll bm T = Some res) \<and>
        (P \<noteq> [] \<longrightarrow>
           (\<forall>b. bcShift bm b \<le> int (length (pat bm)) - 1) \<and>
           length (gsShift bm) = length (pat bm) \<and>
           (\<forall>g \<in> set (gsShift bm). 1 \<le> g) \<and>
           (\<forall>T s results. 0 \<le> s \<and> s \<le> int (length T) - int (length (pat bm)) \<longrightarrow>
               (\<exists>s' results'. scanStep bm T s results = Some (s', results') \<and> s < s')))"
proof (cases P ic rule: bm_New_cases)
  case empty
  then show ?thesis by (simp add: bm_findAll_def)
next
  case (nonempty bm)
  have t: "\<forall>T. \<exists>res. bm_findAll bm T = Some res"
    using bm_findAll_total[OF nonempty(3)] by blast
  have wf: "bm_wf bm" using nonempty(3) by (simp add: bm_for_def)
  have bc: "\<forall>b. bcShift bm b \<le> int (length (pat bm)) - 1"
  proof
    fix b
    from wf have "bcShift bm b < int (length (pat bm))" unfolding bm_wf_def by blast
    then show "bcShift bm b \<le> int (length (pat bm)) - 1" by simp
  qed
  have gs: "length (gsShift bm) = length (pat bm)" "\<forall>g \<in> set (gsShift bm). 1 \<le> g"
    using wf by (simp_all add: bm_wf_def)
  have st: "\<exists>s' results'. scanStep bm T s results = Some (s', results') \<and> s < s'"
    if "0 \<le> s \<and> s \<le> int (length T) - int (length (pat bm))" for T s results
  proof -
    from that have "0 \<le> s" "s + int (length (pat bm)) \<le> int (length T)" by auto
    from scanStep_spec[OF nonempty(3) this, of results] show ?thesis
      by (auto split: if_splits)
  qed
  show ?thesis using nonempty(2) t bc gs st by blast
qed

theorem bm_scan_terminates_witness:
  "\<exists>bm. bm_New ''ab'' False = Some bm \<and> ''ab'' \<noteq> [] \<and>
        (\<exists>res. bm_findAll bm ''xab'' = Some res) \<and>
        (\<exists>g. g \<in> set (gsShift bm) \<and> 1 \<le> g) \<and>
        (0::int) \<le> 0 \<and> 0 \<le> int (length ''xab'') - int (length (pat bm)) \<and>
        (\<exists>s' results'. scanStep bm ''xab'' 0 [] = Some (s', results') \<and> 0 < s')"
proof -
  from bm_scan_terminates[of "''ab''" False] obtain bm where
    bm: "bm_New ''ab'' False = Some bm"
    and t: "\<And>T. \<exists>res. bm_findAll bm T = Some res"
    and len: "length (gsShift bm) = length (pat bm)"
    and gs: "\<And>g. g \<in> set (gsShift bm) \<Longrightarrow> 1 \<le> g"
    and st: "\<And>T s results. 0 \<le> s \<and> s \<le> int (length T) - int (length (pat bm)) \<Longrightarrow>
               \<exists>s' results'. scanStep bm T s results = Some (s', results') \<and> s < s'"
    by auto
  have p: "length (pat bm) = 2"
    using bm bm_New_for[of "''ab''" False] by (auto simp: bm_for_def)
  then have "gsShift bm \<noteq> []" using len by auto
  then obtain g where g: "g \<in> set (gsShift bm)" by (cases "gsShift bm") auto
  have r: "(0::int) \<le> 0 \<and> 0 \<le> int (length ''xab'') - int (length (pat bm))" using p by simp
  from st[OF r, of "[]"] t[of "''xab''"] g gs[OF g] bm r show ?thesis by auto
qed

end
